theory Spec2Isabelle
  imports Complex_Main "HOL-Library.Word" "HOL-Library.AList" "HOL-Library.Multiset"
begin

section \<open>Accounts and transaction records (account.h, account.cpp)\<close>

text \<open>
  Modelling conventions.
  \<^item> A C++ \<open>double\<close> is an exact \<open>real\<close>: rounding, infinities and NaN are outside the
    model.
  \<^item> \<open>Account\<close> objects live at addresses (natural numbers) of a store, because
    \<open>Account::transfer\<close> receives its target by reference and the target may be the
    object itself.
  \<^item> \<open>std::mutex\<close> is not recursive. A mutex is a flag, set while the calling thread
    owns it; \<open>lock()\<close> on a mutex the caller already owns has undefined behaviour (on
    the usual implementations the thread blocks on itself for ever). The model stops
    there with the fault \<open>MutexRelock\<close> and hands back the store as it is at that
    point; the call never returns to its caller.
  \<^item> Time stamps are left out; \<open>Transaction::transactionCounter\<close> is the 64-bit
    counter of the source.
\<close>

record Transaction =
  transactionId :: string
  fromAccount :: string
  toAccount :: string
  type :: string
  amount :: real
  description :: string
  status :: string

record Account =
  accountNumber :: string
  accountHolderName :: string
  balance :: real
  transactionHistory :: "Transaction list"
  accountMutex :: bool

record world =
  objs :: "nat \<Rightarrow> Account"
  transactionCounter :: "64 word"
  fresh :: nat

text \<open>
  How a call can fail to return a value: \<open>MutexRelock f a\<close> says that the \<open>lock()\<close>
  issued in function \<open>f\<close> found the mutex of the account at address \<open>a\<close> already
  owned by the caller; \<open>Thrown e\<close> is a C++ exception leaving the call.
\<close>

datatype ErrorType =
    ACCOUNT_NOT_FOUND | INSUFFICIENT_FUNDS_ErrorType | INVALID_AMOUNT | ACCOUNT_CLOSED
  | TRANSACTION_FAILED | SYSTEM_ERROR | INVALID_ACCOUNT_NUMBER | DUPLICATE_ACCOUNT

datatype exception = BankException ErrorType string string | invalid_argument string

datatype fault = MutexRelock string nat | Thrown exception

definition DEPOSIT :: string where "DEPOSIT = ''DEPOSIT''"
definition WITHDRAW :: string where "WITHDRAW = ''WITHDRAW''"
definition TRANSFER :: string where "TRANSFER = ''TRANSFER''"
definition SUCCESS :: string where "SUCCESS = ''SUCCESS''"
definition FAILED :: string where "FAILED = ''FAILED''"
definition PENDING :: string where "PENDING = ''PENDING''"
definition INSUFFICIENT_FUNDS :: string where "INSUFFICIENT_FUNDS = ''INSUFFICIENT_FUNDS''"

text \<open>\<open>std::to_string\<close> on an unsigned integer: its decimal digits.\<close>

fun to_string :: "nat \<Rightarrow> string" where
  "to_string n =
     (if n < 10 then [''0123456789'' ! n]
      else to_string (n div 10) @ [''0123456789'' ! (n mod 10)])"

declare to_string.simps [simp del]

text \<open>The constructor of \<open>Transaction\<close>: every record starts as PENDING.\<close>

definition Transaction_ctor ::
  "string \<Rightarrow> string \<Rightarrow> string \<Rightarrow> string \<Rightarrow> real \<Rightarrow> string \<Rightarrow> Transaction" where
  "Transaction_ctor id' from' to' t amt desc =
     \<lparr>transactionId = id', fromAccount = from', toAccount = to', type = t,
      amount = amt, description = desc, status = PENDING\<rparr>"

definition isSuccessful :: "Transaction \<Rightarrow> bool" where
  "isSuccessful t = (status t = SUCCESS)"

text \<open>The store: updating one object, locking and unlocking its mutex.\<close>

definition upd :: "nat \<Rightarrow> (Account \<Rightarrow> Account) \<Rightarrow> world \<Rightarrow> world" where
  "upd a f w = w\<lparr>objs := (objs w)(a := f (objs w a))\<rparr>"

definition lock :: "nat \<Rightarrow> world \<Rightarrow> world option" where
  "lock a w =
     (if accountMutex (objs w a) then None
      else Some (upd a (\<lambda>x. x\<lparr>accountMutex := True\<rparr>) w))"

definition unlock :: "nat \<Rightarrow> world \<Rightarrow> world" where
  "unlock a w = upd a (\<lambda>x. x\<lparr>accountMutex := False\<rparr>) w"

text \<open>\<open>++Transaction::transactionCounter\<close>: the counter after the increment.\<close>

definition next_counter :: "world \<Rightarrow> world" where
  "next_counter w = w\<lparr>transactionCounter := transactionCounter w + 1\<rparr>"

definition counter_string :: "world \<Rightarrow> string" where
  "counter_string w = to_string (unat (transactionCounter w))"

text \<open>
  \<open>Account::addTransaction\<close>: takes the account's mutex with a \<open>lock_guard\<close>, appends
  the record, releases the mutex.
\<close>

definition addTransaction :: "nat \<Rightarrow> Transaction \<Rightarrow> world \<Rightarrow> (fault + unit) \<times> world" where
  "addTransaction this transaction w =
     (case lock this w of
        None \<Rightarrow> (Inl (MutexRelock ''addTransaction'' this), w)
      | Some w1 \<Rightarrow>
          (Inr (),
           unlock this
             (upd this (\<lambda>a. a\<lparr>transactionHistory := transactionHistory a @ [transaction]\<rparr>) w1)))"

definition getBalance :: "nat \<Rightarrow> world \<Rightarrow> (fault + real) \<times> world" where
  "getBalance this w =
     (case lock this w of
        None \<Rightarrow> (Inl (MutexRelock ''getBalance'' this), w)
      | Some w1 \<Rightarrow> (Inr (balance (objs w1 this)), unlock this w1))"

text \<open>\<open>Account::deposit\<close> (account.cpp, lines 92 to 112).\<close>

definition deposit :: "nat \<Rightarrow> real \<Rightarrow> string \<Rightarrow> world \<Rightarrow> (fault + bool) \<times> world" where
  "deposit this amt desc w =
     (case lock this w of
        None \<Rightarrow> (Inl (MutexRelock ''deposit'' this), w)
      | Some w1 \<Rightarrow>
          if amt \<le> 0 then (Inr False, unlock this w1)
          else
            let w2 = upd this (\<lambda>a. a\<lparr>balance := balance a + amt\<rparr>) w1;
                w3 = next_counter w2;
                depositTransaction =
                  (Transaction_ctor (''DEP_'' @ counter_string w3) ''''
                     (accountNumber (objs w3 this)) DEPOSIT amt desc)\<lparr>status := SUCCESS\<rparr>
            in (case addTransaction this depositTransaction w3 of
                  (Inl f, w4) \<Rightarrow> (Inl f, w4)
                | (Inr u, w4) \<Rightarrow> (Inr True, unlock this w4)))"

text \<open>\<open>Account::withdraw\<close> (account.cpp, lines 114 to 145).\<close>

definition withdraw :: "nat \<Rightarrow> real \<Rightarrow> string \<Rightarrow> world \<Rightarrow> (fault + bool) \<times> world" where
  "withdraw this amt desc w =
     (case lock this w of
        None \<Rightarrow> (Inl (MutexRelock ''withdraw'' this), w)
      | Some w1 \<Rightarrow>
          if amt \<le> 0 then (Inr False, unlock this w1)
          else if balance (objs w1 this) < amt then
            let w2 = next_counter w1;
                withdrawTransaction =
                  (Transaction_ctor (''WTH_'' @ counter_string w2)
                     (accountNumber (objs w2 this)) '''' WITHDRAW amt desc)
                    \<lparr>status := INSUFFICIENT_FUNDS\<rparr>
            in (case addTransaction this withdrawTransaction w2 of
                  (Inl f, w3) \<Rightarrow> (Inl f, w3)
                | (Inr u, w3) \<Rightarrow> (Inr False, unlock this w3))
          else
            let w2 = upd this (\<lambda>a. a\<lparr>balance := balance a - amt\<rparr>) w1;
                w3 = next_counter w2;
                withdrawTransaction =
                  (Transaction_ctor (''WTH_'' @ counter_string w3)
                     (accountNumber (objs w3 this)) '''' WITHDRAW amt desc)\<lparr>status := SUCCESS\<rparr>
            in (case addTransaction this withdrawTransaction w3 of
                  (Inl f, w4) \<Rightarrow> (Inl f, w4)
                | (Inr u, w4) \<Rightarrow> (Inr True, unlock this w4)))"

text \<open>
  \<open>Account::transfer\<close> (account.cpp, lines 147 to 198). The two \<open>unique_lock\<close>s are
  taken in the order of the account numbers (\<open>std::string\<close>'s \<open>operator<\<close>, the
  lexicographic order on bytes); both are released on every return.
\<close>

fun string_less :: "string \<Rightarrow> string \<Rightarrow> bool" where
  "string_less [] [] = False"
| "string_less [] (y # ys) = True"
| "string_less (x # xs) [] = False"
| "string_less (x # xs) (y # ys) =
     ((of_char x :: nat) < of_char y \<or> (x = y \<and> string_less xs ys))"

definition lock_ordered :: "nat \<Rightarrow> nat \<Rightarrow> world \<Rightarrow> (fault + unit) \<times> world" where
  "lock_ordered this target w =
     (if string_less (accountNumber (objs w this)) (accountNumber (objs w target)) then
        (case lock this w of
           None \<Rightarrow> (Inl (MutexRelock ''transfer'' this), w)
         | Some w1 \<Rightarrow>
             (case lock target w1 of
                None \<Rightarrow> (Inl (MutexRelock ''transfer'' target), w1)
              | Some w2 \<Rightarrow> (Inr (), w2)))
      else
        (case lock target w of
           None \<Rightarrow> (Inl (MutexRelock ''transfer'' target), w)
         | Some w1 \<Rightarrow>
             (case lock this w1 of
                None \<Rightarrow> (Inl (MutexRelock ''transfer'' this), w1)
              | Some w2 \<Rightarrow> (Inr (), w2))))"

definition unlock_both :: "nat \<Rightarrow> nat \<Rightarrow> world \<Rightarrow> world" where
  "unlock_both this target w = unlock this (unlock target w)"

definition transfer :: "nat \<Rightarrow> nat \<Rightarrow> real \<Rightarrow> string \<Rightarrow> world \<Rightarrow> (fault + bool) \<times> world" where
  "transfer this target amt desc w =
     (case lock_ordered this target w of
        (Inl f, w0) \<Rightarrow> (Inl f, w0)
      | (Inr u, w1) \<Rightarrow>
          if amt \<le> 0 then (Inr False, unlock_both this target w1)
          else if balance (objs w1 this) < amt then
            let w2 = next_counter w1;
                transferTransaction =
                  (Transaction_ctor (''TRF_'' @ counter_string w2)
                     (accountNumber (objs w2 this)) (accountNumber (objs w2 target))
                     TRANSFER amt desc)\<lparr>status := INSUFFICIENT_FUNDS\<rparr>
            in (case addTransaction this transferTransaction w2 of
                  (Inl f, w3) \<Rightarrow> (Inl f, w3)
                | (Inr u, w3) \<Rightarrow> (Inr False, unlock_both this target w3))
          else
            let w2 = upd this (\<lambda>a. a\<lparr>balance := balance a - amt\<rparr>) w1;
                w3 = upd target (\<lambda>a. a\<lparr>balance := balance a + amt\<rparr>) w2;
                w4 = next_counter w3;
                transactionId = ''TRF_'' @ counter_string w4;
                outgoingTransfer =
                  (Transaction_ctor transactionId
                     (accountNumber (objs w4 this)) (accountNumber (objs w4 target))
                     TRANSFER amt desc)\<lparr>status := SUCCESS\<rparr>
            in (case addTransaction this outgoingTransfer w4 of
                  (Inl f, w5) \<Rightarrow> (Inl f, w5)
                | (Inr u, w5) \<Rightarrow>
                    let incomingTransfer =
                          (Transaction_ctor transactionId
                             (accountNumber (objs w5 this)) (accountNumber (objs w5 target))
                             TRANSFER amt desc)\<lparr>status := SUCCESS\<rparr>
                    in (case addTransaction target incomingTransfer w5 of
                          (Inl f, w6) \<Rightarrow> (Inl f, w6)
                        | (Inr u, w6) \<Rightarrow> (Inr True, unlock_both this target w6))))"

text \<open>
  The constructor of \<open>Account\<close> (account.cpp, lines 49 to 65), with the allocation of
  the object at the next free address. A positive initial balance is recorded as an
  initial deposit; the record keeps the status PENDING of its constructor.
\<close>

definition Account_ctor :: "string \<Rightarrow> string \<Rightarrow> real \<Rightarrow> world \<Rightarrow> (fault + nat) \<times> world" where
  "Account_ctor number holderName initialBalance w =
     (if initialBalance < 0 then
        (Inl (Thrown (invalid_argument ''Initial balance cannot be negative'')), w)
      else
        let this = fresh w;
            w1 = w\<lparr>objs := (objs w)(this :=
                     \<lparr>accountNumber = number, accountHolderName = holderName,
                      balance = initialBalance, transactionHistory = [],
                      accountMutex = False\<rparr>),
                   fresh := Suc this\<rparr>
        in if initialBalance > 0 then
             let w2 = next_counter w1;
                 initTransaction =
                   Transaction_ctor (''INIT_'' @ counter_string w2) '''' number DEPOSIT
                     initialBalance ''Initial deposit''
             in (case addTransaction this initTransaction w2 of
                   (Inl f, w3) \<Rightarrow> (Inl f, w3)
                 | (Inr u, w3) \<Rightarrow> (Inr this, w3))
           else (Inr this, w1))"

text \<open>
  Two stores for the concrete evaluations below: the empty one, and the one in which
  the constructor has built Ann's account (100.00) at address 0 and Bob's (500.00) at
  address 1.
\<close>

definition world0 :: world where
  "world0 =
     \<lparr>objs = (\<lambda>_. \<lparr>accountNumber = [], accountHolderName = [], balance = 0,
                   transactionHistory = [], accountMutex = False\<rparr>),
      transactionCounter = 0, fresh = 0\<rparr>"

definition ann_bob :: world where
  "ann_bob =
     snd (Account_ctor ''MTBS-2000-2000'' ''Bob'' 500
            (snd (Account_ctor ''MTBS-1000-1000'' ''Ann'' 100 world0)))"

section \<open>The registry (bank.h, bank.cpp)\<close>

text \<open>
  \<open>Bank::accounts\<close> is a \<open>std::map\<close> from account numbers to shared pointers: an
  association list from numbers to addresses of the store, written with
  \<open>AList.update\<close> (\<open>accounts[k] = v\<close>) and \<open>AList.delete\<close> (\<open>erase\<close>), read with
  \<open>map_of\<close> (\<open>find\<close>). The logger is a sink: \<open>auditLog\<close> collects the messages handed
  to it. \<open>size_t\<close> counts are natural numbers.
\<close>

record Config =
  bankName :: string
  bankCode :: string
  maxAccounts :: nat
  maxConcurrentTransactions :: nat
  enableAuditLogging :: bool

record Bank =
  config :: Config
  accounts :: "(string \<times> nat) list"
  auditLog :: "string list"

definition Config_ctor :: Config where
  "Config_ctor =
     \<lparr>bankName = ''MTBS Bank'', bankCode = ''MTBS001'', maxAccounts = 1000,
      maxConcurrentTransactions = 100, enableAuditLogging = True\<rparr>"

definition Bank_ctor :: "Config \<Rightarrow> Bank" where
  "Bank_ctor c = \<lparr>config = c, accounts = [], auditLog = []\<rparr>"

definition logMessage :: "string \<Rightarrow> Bank \<Rightarrow> Bank" where
  "logMessage message b = b\<lparr>auditLog := auditLog b @ [message]\<rparr>"

text \<open>
  \<open>BankUtils::isValidInitialBalance\<close> as bank\_utils.h defines it inline (bank.cpp
  repeats it with \<open><\<close> for the upper bound; the two differ at 1000000.00 only).
\<close>

definition isValidInitialBalance :: "real \<Rightarrow> bool" where
  "isValidInitialBalance b = (b \<ge> 0 \<and> b \<le> 1000000)"

text \<open>\<open>TransactionUtils::isValidAccountNumber\<close>, which \<open>Bank::validateAccountNumber\<close> calls.\<close>

definition isValidAccountNumber :: "string \<Rightarrow> bool" where
  "isValidAccountNumber number = (number \<noteq> [] \<and> length number \<ge> 8)"

definition validateAccountNumber :: "string \<Rightarrow> bool" where
  "validateAccountNumber number = isValidAccountNumber number"

definition getTotalAccounts :: "Bank \<Rightarrow> nat" where
  "getTotalAccounts b = length (accounts b)"

text \<open>
  \<open>Bank::createAccount\<close> (bank.cpp, lines 75 to 112). \<open>generated\<close> is the string that
  \<open>BankUtils::generateAccountNumber()\<close> returns in this call (a random number in the
  source).
\<close>

definition createAccount ::
  "string \<Rightarrow> real \<Rightarrow> string \<Rightarrow> Bank \<Rightarrow> world \<Rightarrow> (fault + string) \<times> Bank \<times> world" where
  "createAccount holderName initialBalance generated b w =
     (if holderName = [] then
        (Inl (Thrown (BankException INVALID_ACCOUNT_NUMBER
                        ''Account holder name cannot be empty'' '''')), b, w)
      else if \<not> isValidInitialBalance initialBalance then
        (Inl (Thrown (BankException INVALID_AMOUNT ''Invalid initial balance'' '''')), b, w)
      else if getTotalAccounts b \<ge> maxAccounts (config b) then
        (Inl (Thrown (BankException SYSTEM_ERROR
                        ''Maximum number of accounts reached'' '''')), b, w)
      else
        (case Account_ctor generated holderName initialBalance w of
           (Inl f, w1) \<Rightarrow> (Inl f, b, w1)
         | (Inr account, w1) \<Rightarrow>
             let b1 = b\<lparr>accounts := AList.update generated account (accounts b)\<rparr>;
                 b2 = (if enableAuditLogging (config b1) then
                         logMessage (''Account created: '' @ generated @ '' for '' @ holderName) b1
                       else b1)
             in (Inr generated, b2, w1)))"

text \<open>\<open>Bank::closeAccount\<close> (bank.cpp, lines 114 to 141).\<close>

definition closeAccount ::
  "string \<Rightarrow> Bank \<Rightarrow> world \<Rightarrow> (fault + bool) \<times> Bank \<times> world" where
  "closeAccount number b w =
     (if \<not> validateAccountNumber number then (Inr False, b, w)
      else
        (case map_of (accounts b) number of
           None \<Rightarrow> (Inr False, b, w)
         | Some account \<Rightarrow>
             (case getBalance account w of
                (Inl f, w1) \<Rightarrow> (Inl f, b, w1)
              | (Inr bal, w1) \<Rightarrow>
                  if bal \<noteq> 0 then (Inr False, b, w1)
                  else
                    let b1 = b\<lparr>accounts := AList.delete number (accounts b)\<rparr>;
                        b2 = (if enableAuditLogging (config b1) then
                                logMessage (''Account closed: '' @ number) b1
                              else b1)
                    in (Inr True, b2, w1))))"

text \<open>\<open>Bank::getAccount\<close> (bank.cpp, lines 143 to 151): \<open>None\<close> is \<open>nullptr\<close>.\<close>

definition getAccount :: "string \<Rightarrow> Bank \<Rightarrow> nat option" where
  "getAccount number b =
     (if \<not> validateAccountNumber number then None else map_of (accounts b) number)"

text \<open>\<open>Bank::getAccountBalance\<close> (bank.cpp, lines 227 to 230).\<close>

definition getAccountBalance :: "string \<Rightarrow> Bank \<Rightarrow> world \<Rightarrow> (fault + real) \<times> world" where
  "getAccountBalance number b w =
     (case getAccount number b of
        Some account \<Rightarrow> getBalance account w
      | None \<Rightarrow> (Inr (- 1), w))"

text \<open>The default bank in which Ann's and Bob's accounts have been created.\<close>

definition bank_ann :: "Bank \<times> world" where
  "bank_ann =
     snd (createAccount ''Ann'' 100 ''MTBS-1000-1000'' (Bank_ctor Config_ctor) world0)"

definition bank_ann_bob :: "Bank \<times> world" where
  "bank_ann_bob =
     snd (createAccount ''Bob'' 0 ''MTBS-2000-2000'' (fst bank_ann) (snd bank_ann))"

section \<open>The worker pool (thread\_manager.h, thread\_manager.cpp)\<close>

text \<open>
  A task's closure is named by a number (\<open>None\<close> is an empty \<open>std::function\<close>);
  running it appends that number to \<open>executed\<close>, a log the model adds. Each worker
  thread is at one of four places of \<open>workerFunction\<close>: about to test
  \<open>while (running)\<close>; inside the loop body before it holds a task (about to take the
  pool's mutex, or waiting on the condition variable); running a task, outside the
  mutex; returned from \<open>workerFunction\<close>. \<open>size_t\<close> is 64 bits wide.
\<close>

record Task =
  task_function :: "nat option"
  task_description :: string
  priority :: int

datatype Worker = AtLoopTest | InLoopBody | Executing Task | Finished

record ThreadPool =
  workers :: "Worker list"
  taskQueue :: "Task list"
  running :: bool
  activeThreads :: "64 word"
  executed :: "nat list"

text \<open>The constructor creates the worker threads at once; the pool is not running.\<close>

definition ThreadPool_ctor :: "nat \<Rightarrow> ThreadPool" where
  "ThreadPool_ctor threadCount =
     \<lparr>workers = replicate threadCount AtLoopTest, taskQueue = [], running = False,
      activeThreads = 0, executed = []\<rparr>"

definition start :: "ThreadPool \<Rightarrow> ThreadPool" where
  "start p = (if \<not> running p then p\<lparr>running := True\<rparr> else p)"

definition submitTask :: "nat option \<Rightarrow> string \<Rightarrow> ThreadPool \<Rightarrow> bool \<times> ThreadPool" where
  "submitTask task desc p =
     (if \<not> running p then (False, p)
      else
        (True,
         p\<lparr>taskQueue := taskQueue p @
              [\<lparr>task_function = task, task_description = desc, priority = 0\<rparr>]\<rparr>))"

text \<open>
  \<open>std::priority_queue::top\<close> yields an element of greatest priority; which one among
  equals is not fixed.
\<close>

definition is_top :: "Task \<Rightarrow> Task list \<Rightarrow> bool" where
  "is_top t q = (t \<in> set q \<and> (\<forall>u \<in> set q. priority u \<le> priority t))"

definition set_worker :: "nat \<Rightarrow> Worker \<Rightarrow> ThreadPool \<Rightarrow> ThreadPool" where
  "set_worker i x p = p\<lparr>workers := (workers p)[i := x]\<rparr>"

definition run_function :: "Task \<Rightarrow> nat list" where
  "run_function t = (case task_function t of None \<Rightarrow> [] | Some f \<Rightarrow> [f])"

text \<open>
  One atomic step of worker \<open>i\<close> in \<open>workerFunction\<close> (thread\_manager.cpp, lines 87 to
  119); \<open>t\<close> is the element that \<open>top()\<close> yields if this step takes a task. \<open>None\<close>: the
  worker cannot move (it does not exist, it has returned, it is blocked in
  \<open>condition.wait\<close>, or \<open>t\<close> is not a top element).
\<close>

definition worker_step :: "nat \<Rightarrow> Task \<Rightarrow> ThreadPool \<Rightarrow> ThreadPool option" where
  "worker_step i t p =
     (if i \<ge> length (workers p) then None
      else
        (case workers p ! i of
           AtLoopTest \<Rightarrow>
             Some (if running p then set_worker i InLoopBody p else set_worker i Finished p)
         | InLoopBody \<Rightarrow>
             if running p \<and> taskQueue p = [] then None
             else if \<not> running p \<and> taskQueue p = [] then Some (set_worker i Finished p)
             else if is_top t (taskQueue p) then
               Some (set_worker i (Executing t)
                       (p\<lparr>taskQueue := remove1 t (taskQueue p),
                          activeThreads := activeThreads p + 1\<rparr>))
             else None
         | Executing u \<Rightarrow>
             Some (set_worker i AtLoopTest
                     (p\<lparr>executed := executed p @ run_function u,
                        activeThreads := activeThreads p - 1\<rparr>))
         | Finished \<Rightarrow> None))"

text \<open>The workers run interleaved: a schedule lists which worker moves next.\<close>

fun run_workers :: "(nat \<times> Task) list \<Rightarrow> ThreadPool \<Rightarrow> ThreadPool option" where
  "run_workers [] p = Some p"
| "run_workers ((i, t) # sched) p =
     (case worker_step i t p of None \<Rightarrow> None | Some p' \<Rightarrow> run_workers sched p')"

text \<open>
  \<open>ThreadPool::stop\<close> (thread\_manager.cpp, lines 35 to 49): it clears the flag, wakes
  the workers and joins them, which returns once every worker has returned from
  \<open>workerFunction\<close>; then it clears the vector of workers. \<open>sched\<close> is the interleaving
  of the workers while \<open>stop\<close> waits; \<open>None\<close>: \<open>sched\<close> is not one that lets \<open>stop\<close>
  return.
\<close>

definition stop :: "(nat \<times> Task) list \<Rightarrow> ThreadPool \<Rightarrow> ThreadPool option" where
  "stop sched p =
     (case run_workers sched (p\<lparr>running := False\<rparr>) of
        None \<Rightarrow> None
      | Some p' \<Rightarrow>
          if list_all (\<lambda>x. x = Finished) (workers p') then Some (p'\<lparr>workers := []\<rparr>)
          else None)"

text \<open>What can happen to a pool: a task is submitted, or a worker moves.\<close>

datatype pool_event = Submit "nat option" string | Step nat Task

fun pool_run :: "pool_event list \<Rightarrow> ThreadPool \<Rightarrow> (bool list \<times> ThreadPool) option" where
  "pool_run [] p = Some ([], p)"
| "pool_run (Submit task desc # evs) p =
     (case submitTask task desc p of
        (r, p') \<Rightarrow> (case pool_run evs p' of None \<Rightarrow> None | Some (rs, p'') \<Rightarrow> Some (r # rs, p'')))"
| "pool_run (Step i t # evs) p =
     (case worker_step i t p of None \<Rightarrow> None | Some p' \<Rightarrow> pool_run evs p')"

text \<open>
  Where the closures are: \<open>in_flight\<close> lists the tasks that workers hold (taken from
  the queue, not yet run to the end), and \<open>closures\<close> is the multiset of the closures
  of a list of tasks (an empty \<open>std::function\<close> contributes none).
\<close>

fun holding :: "Worker \<Rightarrow> Task list" where
  "holding (Executing u) = [u]"
| "holding AtLoopTest = []"
| "holding InLoopBody = []"
| "holding Finished = []"

definition in_flight :: "ThreadPool \<Rightarrow> Task list" where
  "in_flight p = concat (map holding (workers p))"

definition closures :: "Task list \<Rightarrow> nat multiset" where
  "closures ts = mset (concat (map run_function ts))"

text \<open>
  Pools for the concrete evaluations below. In \<open>waiting_pool\<close> the one worker waits
  inside the loop body and a task is queued; in \<open>busy_pool\<close> one worker runs a task, one
  is inside the loop body and one is about to test the flag, with two tasks queued; in
  \<open>working_pool\<close> no worker is inside the loop body without a task; \<open>idle_pool\<close> is a
  started pool of two workers.
\<close>

definition job7 :: Task where
  "job7 = \<lparr>task_function = Some 7, task_description = ''job'', priority = 0\<rparr>"

definition waiting_pool :: ThreadPool where
  "waiting_pool =
     \<lparr>workers = [InLoopBody], taskQueue = [job7], running = True, activeThreads = 0,
      executed = []\<rparr>"

definition job5 :: Task where
  "job5 = \<lparr>task_function = Some 5, task_description = ''job'', priority = 0\<rparr>"

definition job8 :: Task where
  "job8 = \<lparr>task_function = Some 8, task_description = ''job'', priority = 0\<rparr>"

definition busy_pool :: ThreadPool where
  "busy_pool =
     \<lparr>workers = [Executing job5, InLoopBody, AtLoopTest], taskQueue = [job7, job8],
      running = True, activeThreads = 1, executed = []\<rparr>"

definition busy_pool_after :: ThreadPool where
  "busy_pool_after =
     \<lparr>workers = [], taskQueue = [job8], running = False, activeThreads = 0,
      executed = [5, 7]\<rparr>"

definition working_pool :: ThreadPool where
  "working_pool =
     \<lparr>workers = [Executing job5, AtLoopTest], taskQueue = [job7, job8],
      running = True, activeThreads = 1, executed = []\<rparr>"

definition working_pool_after :: ThreadPool where
  "working_pool_after =
     \<lparr>workers = [], taskQueue = [job7, job8], running = False, activeThreads = 0,
      executed = [5]\<rparr>"

definition idle_pool :: ThreadPool where
  "idle_pool = start (ThreadPool_ctor 2)"

definition idle_pool_stopped :: ThreadPool where
  "idle_pool_stopped =
     \<lparr>workers = [], taskQueue = [], running = False, activeThreads = 0, executed = []\<rparr>"

section \<open>Properties of the account operations\<close>

lemmas account_defs =
  deposit_def withdraw_def transfer_def lock_ordered_def addTransaction_def getBalance_def
  lock_def unlock_def unlock_both_def upd_def next_counter_def Let_def

lemma relock_idle:
  assumes "\<not> accountMutex (objs w a)"
  shows "unlock a (upd a (\<lambda>x. x\<lparr>accountMutex := True\<rparr>) w) = w"
proof -
  have "(objs w a)\<lparr>accountMutex := False\<rparr> = (objs w a)\<lparr>accountMutex := accountMutex (objs w a)\<rparr>"
    using assms by simp
  then have "(objs w a)\<lparr>accountMutex := False\<rparr> = objs w a" by simp
  then show ?thesis by (simp add: unlock_def upd_def)
qed

lemma getBalance_idle:
  "\<not> accountMutex (objs w a) \<Longrightarrow> getBalance a w = (Inr (balance (objs w a)), w)"
  using relock_idle [of w a] by (simp add: getBalance_def lock_def) (simp add: upd_def)

lemma objs_ann_bob_0:
  "objs ann_bob 0 =
     \<lparr>accountNumber = ''MTBS-1000-1000'', accountHolderName = ''Ann'', balance = 100,
      transactionHistory =
        [\<lparr>transactionId = ''INIT_1'', fromAccount = '''', toAccount = ''MTBS-1000-1000'',
          type = ''DEPOSIT'', amount = 100, description = ''Initial deposit'',
          status = ''PENDING''\<rparr>],
      accountMutex = False\<rparr>"
  by (simp add: ann_bob_def world0_def Account_ctor_def account_defs counter_string_def
      Transaction_ctor_def to_string.simps DEPOSIT_def PENDING_def)

lemma objs_ann_bob_1:
  "objs ann_bob (Suc 0) =
     \<lparr>accountNumber = ''MTBS-2000-2000'', accountHolderName = ''Bob'', balance = 500,
      transactionHistory =
        [\<lparr>transactionId = ''INIT_2'', fromAccount = '''', toAccount = ''MTBS-2000-2000'',
          type = ''DEPOSIT'', amount = 500, description = ''Initial deposit'',
          status = ''PENDING''\<rparr>],
      accountMutex = False\<rparr>"
  by (simp add: ann_bob_def world0_def Account_ctor_def account_defs counter_string_def
      Transaction_ctor_def to_string.simps DEPOSIT_def PENDING_def)

lemma addTransaction_held:
  "accountMutex (objs w a) \<Longrightarrow>
     addTransaction a txn w = (Inl (MutexRelock ''addTransaction'' a), w)"
  by (simp add: addTransaction_def lock_def)

lemma deposit_relock:
  assumes "\<not> accountMutex (objs w this)" and "0 < amt"
  shows "fst (deposit this amt d w) = Inl (MutexRelock ''addTransaction'' this)"
    and "accountMutex (objs (snd (deposit this amt d w)) this)"
  using assms by (simp_all add: account_defs)

lemma withdraw_relock:
  assumes "\<not> accountMutex (objs w this)" and "0 < amt"
  shows "fst (withdraw this amt d w) = Inl (MutexRelock ''addTransaction'' this)"
    and "accountMutex (objs (snd (withdraw this amt d w)) this)"
  using assms by (simp_all add: account_defs)

lemma transfer_relock:
  assumes "\<not> accountMutex (objs w this)" and "\<not> accountMutex (objs w target)"
    and "this \<noteq> target" and "0 < amt"
  shows "fst (transfer this target amt d w) = Inl (MutexRelock ''addTransaction'' this)"
    and "accountMutex (objs (snd (transfer this target amt d w)) this)"
    and "accountMutex (objs (snd (transfer this target amt d w)) target)"
  using assms by (simp_all add: account_defs)

text \<open>
  C3. Every path that appends a record calls \<open>addTransaction\<close> while the operation
  itself owns the account's mutex, and \<open>addTransaction\<close> locks that mutex again. For
  an idle account and a positive amount, \<open>deposit\<close>, \<open>withdraw\<close> (whatever the balance,
  so in both outcomes) and \<open>transfer\<close> between two distinct accounts (in both
  outcomes) all end in the second \<open>lock()\<close> of \<open>addTransaction\<close> on the account's own
  mutex, which the operation still owns. On the target's side of a transfer the
  target's mutex is owned as well when \<open>targetAccount.addTransaction\<close> is due, and
  \<open>addTransaction\<close> on an account whose mutex is owned is always a second acquisition.
\<close>

theorem record_paths_lock_twice:
  assumes "\<not> accountMutex (objs w this)" and "\<not> accountMutex (objs w target)"
    and "this \<noteq> target" and "0 < amt"
  shows "fst (deposit this amt d w) = Inl (MutexRelock ''addTransaction'' this)
       \<and> accountMutex (objs (snd (deposit this amt d w)) this)
       \<and> fst (withdraw this amt d w) = Inl (MutexRelock ''addTransaction'' this)
       \<and> accountMutex (objs (snd (withdraw this amt d w)) this)
       \<and> fst (transfer this target amt d w) = Inl (MutexRelock ''addTransaction'' this)
       \<and> accountMutex (objs (snd (transfer this target amt d w)) this)
       \<and> accountMutex (objs (snd (transfer this target amt d w)) target)
       \<and> fst (addTransaction target txn (snd (transfer this target amt d w)))
           = Inl (MutexRelock ''addTransaction'' target)"
proof -
  have "accountMutex (objs (snd (transfer this target amt d w)) target)"
    using assms by (rule transfer_relock)
  then have "fst (addTransaction target txn (snd (transfer this target amt d w)))
      = Inl (MutexRelock ''addTransaction'' target)"
    by (simp add: addTransaction_held)
  then show ?thesis
    using deposit_relock [OF assms(1) assms(4)] withdraw_relock [OF assms(1) assms(4)]
      transfer_relock [OF assms]
    by simp
qed

theorem record_paths_lock_twice_witness:
  "\<not> accountMutex (objs ann_bob 0) \<and> \<not> accountMutex (objs ann_bob 1) \<and> (0::nat) \<noteq> 1
   \<and> (0::real) < 30
   \<and> fst (deposit 0 30 ''pay'' ann_bob) = Inl (MutexRelock ''addTransaction'' 0)
   \<and> fst (withdraw 0 30 ''pay'' ann_bob) = Inl (MutexRelock ''addTransaction'' 0)
   \<and> fst (transfer 0 1 30 ''pay'' ann_bob) = Inl (MutexRelock ''addTransaction'' 0)
   \<and> accountMutex (objs (snd (transfer 0 1 30 ''pay'' ann_bob)) 1)"
proof -
  have h1: "\<not> accountMutex (objs ann_bob 0)" by (simp add: objs_ann_bob_0)
  have h2: "\<not> accountMutex (objs ann_bob 1)" by (simp add: objs_ann_bob_1)
  have h3: "(0::nat) \<noteq> 1" by simp
  have h4: "(0::real) < 30" by simp
  from record_paths_lock_twice [OF h1 h2 h3 h4, of "''pay''"]
  show ?thesis using h1 h2 h3 h4 by blast
qed

text \<open>
  C1, at Ann's account (balance 100.00, one record): \<open>deposit(50)\<close> raises the
  balance to 150.00 and then locks the mutex it owns in \<open>addTransaction\<close>. The deposit
  never returns success and appends no record, so the balance no longer is the
  initial balance plus the successful deposits.
\<close>

theorem deposit_50_stuck_after_credit:
  "fst (deposit 0 50 ''salary'' ann_bob) = Inl (MutexRelock ''addTransaction'' 0)
   \<and> balance (objs (snd (deposit 0 50 ''salary'' ann_bob)) 0) = 150
   \<and> transactionHistory (objs (snd (deposit 0 50 ''salary'' ann_bob)) 0)
       = transactionHistory (objs ann_bob 0)"
  by (simp add: account_defs objs_ann_bob_0)

text \<open>
  C6, at Ann's account (balance 100.00): \<open>withdraw(250)\<close> does not return failure. It
  ends in the second \<open>lock()\<close> of \<open>addTransaction\<close>, with the balance unchanged and
  without the INSUFFICIENT\_FUNDS record.
\<close>

theorem withdraw_250_stuck_without_record:
  "fst (withdraw 0 250 ''rent'' ann_bob) = Inl (MutexRelock ''addTransaction'' 0)
   \<and> balance (objs (snd (withdraw 0 250 ''rent'' ann_bob)) 0) = 100
   \<and> transactionHistory (objs (snd (withdraw 0 250 ''rent'' ann_bob)) 0)
       = transactionHistory (objs ann_bob 0)"
  by (simp add: account_defs objs_ann_bob_0)

text \<open>
  C2, from Ann (100.00) to Bob (500.00). A transfer of 250.00 does not return failure
  and leaves no INSUFFICIENT\_FUNDS record on the source; a transfer of 30.00 moves
  the money (70.00 and 530.00) and then appends no record to either history and does
  not return. Both end in the second \<open>lock()\<close> of \<open>addTransaction\<close> on the source.
\<close>

theorem transfer_stuck_without_records:
  "fst (transfer 0 1 250 ''gift'' ann_bob) = Inl (MutexRelock ''addTransaction'' 0)
   \<and> transactionHistory (objs (snd (transfer 0 1 250 ''gift'' ann_bob)) 0)
       = transactionHistory (objs ann_bob 0)
   \<and> fst (transfer 0 1 30 ''gift'' ann_bob) = Inl (MutexRelock ''addTransaction'' 0)
   \<and> balance (objs (snd (transfer 0 1 30 ''gift'' ann_bob)) 0) = 70
   \<and> balance (objs (snd (transfer 0 1 30 ''gift'' ann_bob)) 1) = 530
   \<and> transactionHistory (objs (snd (transfer 0 1 30 ''gift'' ann_bob)) 0)
       = transactionHistory (objs ann_bob 0)
   \<and> transactionHistory (objs (snd (transfer 0 1 30 ''gift'' ann_bob)) 1)
       = transactionHistory (objs ann_bob 1)"
  by (simp add: account_defs objs_ann_bob_0 objs_ann_bob_1)

text \<open>
  C5, at Ann's account: a transfer to itself takes the \<open>else\<close> branch of the lock
  order (a number is not less than itself) and calls \<open>lock()\<close> twice on the one mutex,
  \<open>lock2\<close> and then \<open>lock1\<close>, before it looks at the amount. The second call finds the
  mutex owned by the caller, whatever the amount.
\<close>

theorem self_transfer_locks_twice:
  "fst (transfer 0 0 30 ''self'' ann_bob) = Inl (MutexRelock ''transfer'' 0)
   \<and> fst (transfer 0 0 0 ''self'' ann_bob) = Inl (MutexRelock ''transfer'' 0)
   \<and> accountMutex (objs (snd (transfer 0 0 30 ''self'' ann_bob)) 0)
   \<and> balance (objs (snd (transfer 0 0 30 ''self'' ann_bob)) 0) = 100"
  by (simp add: account_defs objs_ann_bob_0)

text \<open>
  The paths that append no record take the mutex once and return: an amount that is
  not positive is refused with the store unchanged.
\<close>

lemma deposit_refuses_nonpositive:
  assumes "\<not> accountMutex (objs w this)" and "amt \<le> 0"
  shows "deposit this amt d w = (Inr False, w)"
  using assms relock_idle [of w this] by (simp add: deposit_def lock_def)

lemma withdraw_refuses_nonpositive:
  assumes "\<not> accountMutex (objs w this)" and "amt \<le> 0"
  shows "withdraw this amt d w = (Inr False, w)"
  using assms relock_idle [of w this] by (simp add: withdraw_def lock_def)

lemma lock_unlock_both:
  assumes "\<not> accountMutex (objs w this)" and "\<not> accountMutex (objs w target)"
    and "this \<noteq> target"
  shows "\<exists>w1. lock_ordered this target w = (Inr (), w1) \<and> unlock_both this target w1 = w"
proof -
  have a: "(objs w this)\<lparr>accountMutex := False\<rparr> = objs w this"
  proof -
    have "(objs w this)\<lparr>accountMutex := False\<rparr>
        = (objs w this)\<lparr>accountMutex := accountMutex (objs w this)\<rparr>"
      using assms(1) by simp
    then show ?thesis by simp
  qed
  have b: "(objs w target)\<lparr>accountMutex := False\<rparr> = objs w target"
  proof -
    have "(objs w target)\<lparr>accountMutex := False\<rparr>
        = (objs w target)\<lparr>accountMutex := accountMutex (objs w target)\<rparr>"
      using assms(2) by simp
    then show ?thesis by simp
  qed
  show ?thesis
    using assms
    by (simp add: lock_ordered_def lock_def upd_def unlock_both_def unlock_def a b)
qed

lemma transfer_refuses_nonpositive:
  assumes "\<not> accountMutex (objs w this)" and "\<not> accountMutex (objs w target)"
    and "this \<noteq> target" and "amt \<le> 0"
  shows "transfer this target amt d w = (Inr False, w)"
  using lock_unlock_both [OF assms(1-3)] assms(4) by (auto simp: transfer_def)

section \<open>Properties of the registry\<close>

lemmas bank_defs =
  createAccount_def closeAccount_def getAccount_def getAccountBalance_def
  validateAccountNumber_def isValidAccountNumber_def isValidInitialBalance_def
  getTotalAccounts_def logMessage_def Bank_ctor_def Config_ctor_def

lemma fst_bank_ann_bob:
  "fst bank_ann_bob =
     \<lparr>config = Config_ctor,
      accounts = [(''MTBS-1000-1000'', 0), (''MTBS-2000-2000'', 1)],
      auditLog = [''Account created: MTBS-1000-1000 for Ann'',
                  ''Account created: MTBS-2000-2000 for Bob'']\<rparr>"
  by (simp add: bank_ann_bob_def bank_ann_def bank_defs Account_ctor_def world0_def account_defs)

lemma snd_bank_ann_bob:
  "balance (objs (snd bank_ann_bob) 0) = 100" "\<not> accountMutex (objs (snd bank_ann_bob) 0)"
  "balance (objs (snd bank_ann_bob) (Suc 0)) = 0" "\<not> accountMutex (objs (snd bank_ann_bob) (Suc 0))"
  by (simp_all add: bank_ann_bob_def bank_ann_def bank_defs Account_ctor_def world0_def account_defs)

lemma Account_ctor_ok:
  "0 \<le> bal \<Longrightarrow> fst (Account_ctor g h bal w) = Inr (fresh w)"
  by (simp add: Account_ctor_def account_defs)

text \<open>
  C8. \<open>closeAccount\<close> returns failure and leaves the mapping (and the store) as they
  are when the number has no account or the account's balance is not zero. When the
  account is in the mapping under a valid number with balance exactly zero, it
  returns success, erases that entry and no other, and \<open>getAccount\<close> of the number is
  absent afterwards. The account is idle: \<open>getBalance\<close> can take its mutex.
\<close>

theorem closeAccount_spec:
  "(map_of (accounts b) n = None \<longrightarrow> closeAccount n b w = (Inr False, b, w))
 \<and> (map_of (accounts b) n = Some a \<and> \<not> accountMutex (objs w a) \<and> balance (objs w a) \<noteq> 0
      \<longrightarrow> closeAccount n b w = (Inr False, b, w))
 \<and> (validateAccountNumber n \<and> map_of (accounts b) n = Some a \<and> \<not> accountMutex (objs w a)
      \<and> balance (objs w a) = 0
      \<longrightarrow> fst (closeAccount n b w) = Inr True
        \<and> snd (snd (closeAccount n b w)) = w
        \<and> accounts (fst (snd (closeAccount n b w))) = AList.delete n (accounts b)
        \<and> getAccount n (fst (snd (closeAccount n b w))) = None
        \<and> (\<forall>k. k \<noteq> n \<longrightarrow> map_of (accounts (fst (snd (closeAccount n b w)))) k = map_of (accounts b) k))"
  by (auto simp add: closeAccount_def getBalance_idle getAccount_def logMessage_def Let_def delete_conv)

theorem closeAccount_spec_witness:
  "map_of (accounts (fst bank_ann_bob)) ''MTBS-9999-9999'' = None
   \<and> closeAccount ''MTBS-9999-9999'' (fst bank_ann_bob) (snd bank_ann_bob)
       = (Inr False, fst bank_ann_bob, snd bank_ann_bob)
   \<and> map_of (accounts (fst bank_ann_bob)) ''MTBS-1000-1000'' = Some 0
   \<and> \<not> accountMutex (objs (snd bank_ann_bob) 0) \<and> balance (objs (snd bank_ann_bob) 0) \<noteq> 0
   \<and> closeAccount ''MTBS-1000-1000'' (fst bank_ann_bob) (snd bank_ann_bob)
       = (Inr False, fst bank_ann_bob, snd bank_ann_bob)
   \<and> validateAccountNumber ''MTBS-2000-2000''
   \<and> map_of (accounts (fst bank_ann_bob)) ''MTBS-2000-2000'' = Some 1
   \<and> \<not> accountMutex (objs (snd bank_ann_bob) 1) \<and> balance (objs (snd bank_ann_bob) 1) = 0
   \<and> fst (closeAccount ''MTBS-2000-2000'' (fst bank_ann_bob) (snd bank_ann_bob)) = Inr True
   \<and> getAccount ''MTBS-2000-2000''
        (fst (snd (closeAccount ''MTBS-2000-2000'' (fst bank_ann_bob) (snd bank_ann_bob)))) = None"
proof -
  have a: "map_of (accounts (fst bank_ann_bob)) ''MTBS-9999-9999'' = None"
    by (simp add: fst_bank_ann_bob)
  have b: "map_of (accounts (fst bank_ann_bob)) ''MTBS-1000-1000'' = Some 0
      \<and> \<not> accountMutex (objs (snd bank_ann_bob) 0) \<and> balance (objs (snd bank_ann_bob) 0) \<noteq> 0"
    by (simp add: fst_bank_ann_bob snd_bank_ann_bob)
  have c: "validateAccountNumber ''MTBS-2000-2000''
      \<and> map_of (accounts (fst bank_ann_bob)) ''MTBS-2000-2000'' = Some 1
      \<and> \<not> accountMutex (objs (snd bank_ann_bob) 1) \<and> balance (objs (snd bank_ann_bob) 1) = 0"
    by (simp add: fst_bank_ann_bob snd_bank_ann_bob validateAccountNumber_def
        isValidAccountNumber_def)
  show ?thesis
    using a b c
      closeAccount_spec [of "fst bank_ann_bob" "''MTBS-9999-9999''" "snd bank_ann_bob" 0]
      closeAccount_spec [of "fst bank_ann_bob" "''MTBS-1000-1000''" "snd bank_ann_bob" 0]
      closeAccount_spec [of "fst bank_ann_bob" "''MTBS-2000-2000''" "snd bank_ann_bob" 1]
    by blast
qed

text \<open>
  C10. For a number that is not valid or has no account in the mapping,
  \<open>getAccountBalance\<close> returns the number -1.0, a value of the type of balances, and
  changes nothing.
\<close>

theorem getAccountBalance_sentinel:
  "\<not> validateAccountNumber n \<or> map_of (accounts b) n = None \<Longrightarrow>
     getAccountBalance n b w = (Inr (- 1), w)"
  by (auto simp add: getAccountBalance_def getAccount_def)

theorem getAccountBalance_sentinel_witness:
  "\<not> validateAccountNumber ''ACC1''
   \<and> getAccountBalance ''ACC1'' (fst bank_ann_bob) (snd bank_ann_bob) = (Inr (- 1), snd bank_ann_bob)
   \<and> map_of (accounts (fst bank_ann_bob)) ''MTBS-9999-9999'' = None
   \<and> getAccountBalance ''MTBS-9999-9999'' (fst bank_ann_bob) (snd bank_ann_bob)
       = (Inr (- 1), snd bank_ann_bob)"
proof -
  have a: "\<not> validateAccountNumber ''ACC1''"
    by (simp add: validateAccountNumber_def isValidAccountNumber_def)
  have b: "map_of (accounts (fst bank_ann_bob)) ''MTBS-9999-9999'' = None"
    by (simp add: fst_bank_ann_bob)
  show ?thesis
    using a b
      getAccountBalance_sentinel [of "''ACC1''" "fst bank_ann_bob" "snd bank_ann_bob"]
      getAccountBalance_sentinel [of "''MTBS-9999-9999''" "fst bank_ann_bob" "snd bank_ann_bob"]
    by blast
qed

text \<open>
  C7, as stated, fails: with an empty holder name \<open>createAccount\<close> does not return a
  failure value, it throws a \<open>BankException\<close> to its caller.
\<close>

theorem createAccount_empty_name_throws:
  "fst (createAccount '''' 100 ''MTBS-3000-3000'' (Bank_ctor Config_ctor) world0)
     = Inl (Thrown (BankException INVALID_ACCOUNT_NUMBER
                      ''Account holder name cannot be empty'' ''''))"
  by (simp add: createAccount_def)

text \<open>
  C7, amended. \<open>createAccount\<close> reports its three errors by throwing a
  \<open>BankException\<close> to its caller, with the registry and the store unchanged: an empty
  holder name (error type INVALID\_ACCOUNT\_NUMBER), an initial balance outside the
  bounds (INVALID\_AMOUNT), the account limit reached (SYSTEM\_ERROR). In every other
  case it returns the new account number, which the mapping then holds.
\<close>

theorem createAccount_errors_thrown:
  "(holderName = [] \<longrightarrow>
      createAccount holderName bal g b w =
        (Inl (Thrown (BankException INVALID_ACCOUNT_NUMBER
                        ''Account holder name cannot be empty'' '''')), b, w))
 \<and> (holderName \<noteq> [] \<and> \<not> isValidInitialBalance bal \<longrightarrow>
      createAccount holderName bal g b w =
        (Inl (Thrown (BankException INVALID_AMOUNT ''Invalid initial balance'' '''')), b, w))
 \<and> (holderName \<noteq> [] \<and> isValidInitialBalance bal
      \<and> maxAccounts (config b) \<le> getTotalAccounts b \<longrightarrow>
      createAccount holderName bal g b w =
        (Inl (Thrown (BankException SYSTEM_ERROR
                        ''Maximum number of accounts reached'' '''')), b, w))
 \<and> (holderName \<noteq> [] \<and> isValidInitialBalance bal
      \<and> getTotalAccounts b < maxAccounts (config b) \<longrightarrow>
      fst (createAccount holderName bal g b w) = Inr g
      \<and> map_of (accounts (fst (snd (createAccount holderName bal g b w)))) g = Some (fresh w))"
proof -
  have "fst (createAccount holderName bal g b w) = Inr g
      \<and> map_of (accounts (fst (snd (createAccount holderName bal g b w)))) g = Some (fresh w)"
    if "holderName \<noteq> []" "isValidInitialBalance bal" "getTotalAccounts b < maxAccounts (config b)"
  proof -
    have "0 \<le> bal" using that(2) by (simp add: isValidInitialBalance_def)
    then have "fst (Account_ctor g holderName bal w) = Inr (fresh w)"
      by (rule Account_ctor_ok)
    then obtain w1 where "Account_ctor g holderName bal w = (Inr (fresh w), w1)"
      by (cases "Account_ctor g holderName bal w") simp
    then show ?thesis
      using that by (simp add: createAccount_def Let_def logMessage_def update_conv)
  qed
  then show ?thesis by (simp add: createAccount_def)
qed

theorem createAccount_errors_thrown_witness:
  "fst (createAccount '''' 100 ''MTBS-3000-3000'' (Bank_ctor Config_ctor) world0)
     = Inl (Thrown (BankException INVALID_ACCOUNT_NUMBER
                      ''Account holder name cannot be empty'' ''''))
   \<and> ''Cy'' \<noteq> [] \<and> \<not> isValidInitialBalance (- 5)
   \<and> fst (createAccount ''Cy'' (- 5) ''MTBS-3000-3000'' (Bank_ctor Config_ctor) world0)
     = Inl (Thrown (BankException INVALID_AMOUNT ''Invalid initial balance'' ''''))
   \<and> isValidInitialBalance 100
   \<and> maxAccounts (config (Bank_ctor (Config_ctor\<lparr>maxAccounts := 0\<rparr>)))
       \<le> getTotalAccounts (Bank_ctor (Config_ctor\<lparr>maxAccounts := 0\<rparr>))
   \<and> fst (createAccount ''Cy'' 100 ''MTBS-3000-3000''
            (Bank_ctor (Config_ctor\<lparr>maxAccounts := 0\<rparr>)) world0)
     = Inl (Thrown (BankException SYSTEM_ERROR ''Maximum number of accounts reached'' ''''))
   \<and> getTotalAccounts (Bank_ctor Config_ctor) < maxAccounts (config (Bank_ctor Config_ctor))
   \<and> fst (createAccount ''Cy'' 100 ''MTBS-3000-3000'' (Bank_ctor Config_ctor) world0)
     = Inr ''MTBS-3000-3000''"
proof -
  have a: "''Cy'' \<noteq> [] \<and> \<not> isValidInitialBalance (- 5) \<and> isValidInitialBalance 100"
    by (simp add: isValidInitialBalance_def)
  have b: "maxAccounts (config (Bank_ctor (Config_ctor\<lparr>maxAccounts := 0\<rparr>)))
       \<le> getTotalAccounts (Bank_ctor (Config_ctor\<lparr>maxAccounts := 0\<rparr>))"
    by (simp add: Bank_ctor_def)
  have c: "getTotalAccounts (Bank_ctor Config_ctor) < maxAccounts (config (Bank_ctor Config_ctor))"
    by (simp add: Bank_ctor_def Config_ctor_def getTotalAccounts_def)
  show ?thesis
    using a b c
      createAccount_errors_thrown [of "''''" 100 "''MTBS-3000-3000''" "Bank_ctor Config_ctor" world0]
      createAccount_errors_thrown [of "''Cy''" "- 5" "''MTBS-3000-3000''" "Bank_ctor Config_ctor" world0]
      createAccount_errors_thrown [of "''Cy''" 100 "''MTBS-3000-3000''"
        "Bank_ctor (Config_ctor\<lparr>maxAccounts := 0\<rparr>)" world0]
      createAccount_errors_thrown [of "''Cy''" 100 "''MTBS-3000-3000''" "Bank_ctor Config_ctor" world0]
    by simp
qed

section \<open>Properties of the worker pool\<close>

lemma count_list_update:
  "i < length xs \<Longrightarrow>
     count_list (xs[i := y]) a + (if xs ! i = a then 1 else 0)
       = count_list xs a + (if y = a then 1 else 0)"
proof (induction xs arbitrary: i)
  case Nil
  then show ?case by simp
next
  case (Cons x xs)
  show ?case
  proof (cases i)
    case 0
    then show ?thesis by auto
  next
    case (Suc k)
    then show ?thesis using Cons.IH [of k] Cons.prems by auto
  qed
qed

text \<open>The four moves a worker can make while the flag is clear.\<close>

lemma worker_step_stopped_cases:
  assumes "\<not> running p" and "worker_step i t p = Some p'"
  obtains
    (leave) "i < length (workers p)" "workers p ! i = AtLoopTest"
      "p' = set_worker i Finished p"
  | (break) "i < length (workers p)" "workers p ! i = InLoopBody" "taskQueue p = []"
      "p' = set_worker i Finished p"
  | (take) "i < length (workers p)" "workers p ! i = InLoopBody" "is_top t (taskQueue p)"
      "p' = set_worker i (Executing t)
              (p\<lparr>taskQueue := remove1 t (taskQueue p), activeThreads := activeThreads p + 1\<rparr>)"
  | (run) u where "i < length (workers p)" "workers p ! i = Executing u"
      "p' = set_worker i AtLoopTest
              (p\<lparr>executed := executed p @ run_function u,
                 activeThreads := activeThreads p - 1\<rparr>)"
proof -
  have i: "i < length (workers p)"
    using assms(2) by (simp add: worker_step_def split: if_splits)
  show thesis
  proof (cases "workers p ! i")
    case AtLoopTest
    then show ?thesis using assms i leave by (simp add: worker_step_def)
  next
    case InLoopBody
    then show ?thesis
      using assms i break take by (cases "taskQueue p = []") (auto simp: worker_step_def split: if_splits)
  next
    case (Executing u)
    then show ?thesis using assms i run by (simp add: worker_step_def)
  next
    case Finished
    then show ?thesis using assms i by (simp add: worker_step_def)
  qed
qed

lemma is_top_length:
  assumes "is_top t q"
  shows "length q = Suc (length (remove1 t q))"
proof -
  from assms have t: "t \<in> set q" by (simp add: is_top_def)
  then have "0 < length q" by (rule length_pos_if_in_set)
  then show ?thesis using t by (simp add: length_remove1)
qed

lemma worker_step_stopped:
  assumes "\<not> running p" and "worker_step i t p = Some p'"
  shows "\<not> running p'"
    and "length (workers p') = length (workers p)"
    and "length (taskQueue p) + count_list (workers p') InLoopBody
           \<le> length (taskQueue p') + count_list (workers p) InLoopBody"
    and "count_list (workers p') InLoopBody \<le> count_list (workers p) InLoopBody"
    and "set (executed p) \<subseteq> set (executed p')"
proof -
  have upd: "count_list ((workers p)[i := y]) InLoopBody
               + (if workers p ! i = InLoopBody then 1 else 0)
             = count_list (workers p) InLoopBody + (if y = InLoopBody then 1 else 0)"
    if "i < length (workers p)" for y
    using that by (rule count_list_update)
  show "\<not> running p'"
    using assms
    by (cases rule: worker_step_stopped_cases) (use assms(1) in \<open>simp_all add: set_worker_def\<close>)
  show "length (workers p') = length (workers p)"
    using assms by (cases rule: worker_step_stopped_cases) (simp_all add: set_worker_def)
  show "length (taskQueue p) + count_list (workers p') InLoopBody
           \<le> length (taskQueue p') + count_list (workers p) InLoopBody"
    using assms
  proof (cases rule: worker_step_stopped_cases)
    case leave
    then show ?thesis using upd [of Finished] by (simp add: set_worker_def)
  next
    case break
    then show ?thesis using upd [of Finished] by (simp add: set_worker_def)
  next
    case take
    then show ?thesis
      using upd [of "Executing t"] is_top_length [of t "taskQueue p"]
      by (simp add: set_worker_def)
  next
    case (run u)
    then show ?thesis using upd [of AtLoopTest] by (simp add: set_worker_def)
  qed
  show "count_list (workers p') InLoopBody \<le> count_list (workers p) InLoopBody"
    using assms
  proof (cases rule: worker_step_stopped_cases)
    case leave
    then show ?thesis using upd [of Finished] by (simp add: set_worker_def)
  next
    case break
    then show ?thesis using upd [of Finished] by (simp add: set_worker_def)
  next
    case take
    then show ?thesis using upd [of "Executing t"] by (simp add: set_worker_def)
  next
    case (run u)
    then show ?thesis using upd [of AtLoopTest] by (simp add: set_worker_def)
  qed
  show "set (executed p) \<subseteq> set (executed p')"
    using assms by (cases rule: worker_step_stopped_cases) (auto simp: set_worker_def)
qed

lemma worker_step_stopped_executing:
  assumes "\<not> running p" and "worker_step i t p = Some p'"
    and "j < length (workers p)" and "workers p ! j = Executing u"
  shows "workers p' ! j = Executing u \<or> set (run_function u) \<subseteq> set (executed p')"
  using assms(1,2)
proof (cases rule: worker_step_stopped_cases)
  case leave
  then show ?thesis using assms(3,4) by (cases "j = i") (simp_all add: set_worker_def)
next
  case break
  then show ?thesis using assms(3,4) by (cases "j = i") (simp_all add: set_worker_def)
next
  case take
  then show ?thesis using assms(3,4) by (cases "j = i") (simp_all add: set_worker_def)
next
  case (run v)
  then show ?thesis using assms(3,4) by (cases "j = i") (auto simp: set_worker_def)
qed

lemma worker_step_stopped_no_taker:
  assumes "\<not> running p" and "worker_step i t p = Some p'"
    and "count_list (workers p) InLoopBody = 0"
  shows "taskQueue p' = taskQueue p"
proof -
  have no: "workers p ! i \<noteq> InLoopBody" if "i < length (workers p)"
    using that assms(3) by (metis count_list_0_iff nth_mem)
  from assms(1,2) show ?thesis
    by (cases rule: worker_step_stopped_cases) (use no in \<open>simp_all add: set_worker_def\<close>)
qed

text \<open>The same along a whole schedule.\<close>

lemma run_workers_stopped:
  assumes "\<not> running p" and "run_workers sched p = Some p'"
  shows "\<not> running p'"
    and "length (workers p') = length (workers p)"
    and "length (taskQueue p) + count_list (workers p') InLoopBody
           \<le> length (taskQueue p') + count_list (workers p) InLoopBody"
    and "count_list (workers p') InLoopBody \<le> count_list (workers p) InLoopBody"
    and "set (executed p) \<subseteq> set (executed p')"
  using assms
proof (induction sched arbitrary: p)
  case Nil
  {
    case 1 then show ?case by simp
  next
    case 2 then show ?case by simp
  next
    case 3 then show ?case by simp
  next
    case 4 then show ?case by simp
  next
    case 5 then show ?case by simp
  }
next
  case (Cons a sched)
  obtain i t where a: "a = (i, t)" by (cases a)
  {
    case 1
    then obtain q where q: "worker_step i t p = Some q" "run_workers sched q = Some p'"
      using a by (auto split: option.splits)
    from worker_step_stopped(1) [OF 1(1) q(1)] Cons.IH(1) q(2) show ?case by blast
  next
    case 2
    then obtain q where q: "worker_step i t p = Some q" "run_workers sched q = Some p'"
      using a by (auto split: option.splits)
    from worker_step_stopped(1,2) [OF 2(1) q(1)] Cons.IH(2) [of q] q(2) show ?case by simp
  next
    case 3
    then obtain q where q: "worker_step i t p = Some q" "run_workers sched q = Some p'"
      using a by (auto split: option.splits)
    from worker_step_stopped(1,3) [OF 3(1) q(1)] Cons.IH(3) [of q] q(2) show ?case by simp
  next
    case 4
    then obtain q where q: "worker_step i t p = Some q" "run_workers sched q = Some p'"
      using a by (auto split: option.splits)
    from worker_step_stopped(1,4) [OF 4(1) q(1)] Cons.IH(4) [of q] q(2) show ?case by simp
  next
    case 5
    then obtain q where q: "worker_step i t p = Some q" "run_workers sched q = Some p'"
      using a by (auto split: option.splits)
    from worker_step_stopped(1,5) [OF 5(1) q(1)] Cons.IH(5) [of q] q(2) show ?case by blast
  }
qed

lemma worker_step_stopped_exact:
  assumes "\<not> running p" and "worker_step i t p = Some p'"
  shows "length (taskQueue p') \<le> length (taskQueue p)"
    and "taskQueue p' = [] \<or>
         length (taskQueue p) + count_list (workers p') InLoopBody
           = length (taskQueue p') + count_list (workers p) InLoopBody"
proof -
  have upd: "count_list ((workers p)[i := y]) InLoopBody
               + (if workers p ! i = InLoopBody then 1 else 0)
             = count_list (workers p) InLoopBody + (if y = InLoopBody then 1 else 0)"
    if "i < length (workers p)" for y
    using that by (rule count_list_update)
  show "length (taskQueue p') \<le> length (taskQueue p)"
    using assms
    by (cases rule: worker_step_stopped_cases) (simp_all add: set_worker_def length_remove1)
  show "taskQueue p' = [] \<or>
         length (taskQueue p) + count_list (workers p') InLoopBody
           = length (taskQueue p') + count_list (workers p) InLoopBody"
    using assms
  proof (cases rule: worker_step_stopped_cases)
    case leave
    then show ?thesis using upd [of Finished] by (simp add: set_worker_def)
  next
    case break
    then show ?thesis by (simp add: set_worker_def)
  next
    case take
    then show ?thesis
      using upd [of "Executing t"] is_top_length [of t "taskQueue p"]
      by (simp add: set_worker_def)
  next
    case (run u)
    then show ?thesis using upd [of AtLoopTest] by (simp add: set_worker_def)
  qed
qed

lemma run_workers_stopped_exact:
  assumes "\<not> running p" and "run_workers sched p = Some p'"
  shows "length (taskQueue p') \<le> length (taskQueue p)
       \<and> (taskQueue p' = [] \<or>
          length (taskQueue p) + count_list (workers p') InLoopBody
            = length (taskQueue p') + count_list (workers p) InLoopBody)"
  using assms
proof (induction sched arbitrary: p)
  case Nil
  then show ?case by simp
next
  case (Cons a sched)
  obtain i t where a: "a = (i, t)" by (cases a)
  with Cons.prems obtain q
    where q: "worker_step i t p = Some q" "run_workers sched q = Some p'"
    by (auto split: option.splits)
  have nq: "\<not> running q" using Cons.prems(1) q(1) by (rule worker_step_stopped(1))
  note step = worker_step_stopped_exact [OF Cons.prems(1) q(1)]
  note rest = Cons.IH [OF nq q(2)]
  show ?case
  proof (cases "taskQueue q = []")
    case True
    with rest step show ?thesis by simp
  next
    case False
    with rest step show ?thesis by auto
  qed
qed

lemma run_workers_stopped_executing:
  assumes "\<not> running p" and "run_workers sched p = Some p'"
    and "j < length (workers p)" and "workers p ! j = Executing u"
  shows "workers p' ! j = Executing u \<or> set (run_function u) \<subseteq> set (executed p')"
  using assms
proof (induction sched arbitrary: p)
  case Nil
  then show ?case by simp
next
  case (Cons a sched)
  obtain i t where a: "a = (i, t)" by (cases a)
  with Cons.prems obtain q
    where q: "worker_step i t p = Some q" "run_workers sched q = Some p'"
    by (auto split: option.splits)
  have nq: "\<not> running q" using Cons.prems(1) q(1) by (rule worker_step_stopped(1))
  have len: "length (workers q) = length (workers p)"
    using Cons.prems(1) q(1) by (rule worker_step_stopped(2))
  from worker_step_stopped_executing [OF Cons.prems(1) q(1) Cons.prems(3,4)]
  show ?case
  proof
    assume "workers q ! j = Executing u"
    with Cons.IH [OF nq q(2)] len Cons.prems(3) show ?thesis by simp
  next
    assume "set (run_function u) \<subseteq> set (executed q)"
    moreover have "set (executed q) \<subseteq> set (executed p')"
      using nq q(2) by (rule run_workers_stopped(5))
    ultimately show ?thesis by blast
  qed
qed

lemma run_workers_stopped_no_taker:
  assumes "\<not> running p" and "run_workers sched p = Some p'"
    and "count_list (workers p) InLoopBody = 0"
  shows "taskQueue p' = taskQueue p"
  using assms
proof (induction sched arbitrary: p)
  case Nil
  then show ?case by simp
next
  case (Cons a sched)
  obtain i t where a: "a = (i, t)" by (cases a)
  with Cons.prems obtain q
    where q: "worker_step i t p = Some q" "run_workers sched q = Some p'"
    by (auto split: option.splits)
  have nq: "\<not> running q" using Cons.prems(1) q(1) by (rule worker_step_stopped(1))
  have "count_list (workers q) InLoopBody = 0"
    using worker_step_stopped(4) [OF Cons.prems(1) q(1)] Cons.prems(3) by simp
  with Cons.IH [OF nq q(2)] have "taskQueue p' = taskQueue q" by simp
  also have "taskQueue q = taskQueue p"
    using Cons.prems(1) q(1) Cons.prems(3) by (rule worker_step_stopped_no_taker)
  finally show ?case .
qed

lemma all_Finished_count:
  "list_all (\<lambda>x. x = Finished) xs \<Longrightarrow> count_list xs InLoopBody = 0"
  by (induction xs) auto

lemma stopE:
  assumes "stop sched p = Some p'"
  obtains q where "run_workers sched (p\<lparr>running := False\<rparr>) = Some q"
    and "list_all (\<lambda>x. x = Finished) (workers q)" and "p' = q\<lparr>workers := []\<rparr>"
  using assms by (auto simp: stop_def split: option.splits if_splits)

lemma stop_effects:
  assumes "stop sched p = Some p'"
  shows "\<not> running p' \<and> workers p' = []
       \<and> (\<forall>j u. j < length (workers p) \<and> workers p ! j = Executing u
              \<longrightarrow> set (run_function u) \<subseteq> set (executed p'))
       \<and> length (taskQueue p) \<le> length (taskQueue p') + count_list (workers p) InLoopBody
       \<and> (taskQueue p' = [] \<or>
          length (taskQueue p) = length (taskQueue p') + count_list (workers p) InLoopBody)
       \<and> (count_list (workers p) InLoopBody = 0 \<longrightarrow> taskQueue p' = taskQueue p)
       \<and> (\<forall>i t. worker_step i t p' = None)"
proof -
  from assms obtain q where run: "run_workers sched (p\<lparr>running := False\<rparr>) = Some q"
    and fin: "list_all (\<lambda>x. x = Finished) (workers q)" and p': "p' = q\<lparr>workers := []\<rparr>"
    by (rule stopE)
  have off: "\<not> running (p\<lparr>running := False\<rparr>)" by simp
  have cnt: "count_list (workers q) InLoopBody = 0" using fin by (rule all_Finished_count)
  have len: "length (workers q) = length (workers p)"
    using run_workers_stopped(2) [OF off run] by simp
  have a: "\<not> running p'" using run_workers_stopped(1) [OF off run] p' by simp
  have b: "workers p' = []" using p' by simp
  have c: "set (run_function u) \<subseteq> set (executed p')"
    if "j < length (workers p)" "workers p ! j = Executing u" for j u
  proof -
    from run_workers_stopped_executing [OF off run, of j u] that
    have "workers q ! j = Executing u \<or> set (run_function u) \<subseteq> set (executed q)" by simp
    moreover have "workers q ! j = Finished"
      using fin that(1) len by (simp add: list_all_length)
    ultimately show ?thesis using p' by simp
  qed
  have d: "length (taskQueue p) \<le> length (taskQueue p') + count_list (workers p) InLoopBody"
    using run_workers_stopped(3) [OF off run] cnt p' by simp
  have e: "taskQueue p' = [] \<or>
      length (taskQueue p) = length (taskQueue p') + count_list (workers p) InLoopBody"
    using run_workers_stopped_exact [OF off run] cnt p' by auto
  have f: "taskQueue p' = taskQueue p" if "count_list (workers p) InLoopBody = 0"
    using run_workers_stopped_no_taker [OF off run] that p' by simp
  have g: "worker_step i t p' = None" for i t
    using b by (simp add: worker_step_def)
  from a b c d e f g show ?thesis by blast
qed

lemma closures_simps:
  "closures [] = {#}" "closures (t # ts) = mset (run_function t) + closures ts"
  "closures (xs @ ys) = closures xs + closures ys"
  by (simp_all add: closures_def)

lemma closures_remove1:
  "t \<in> set q \<Longrightarrow> closures q = mset (run_function t) + closures (remove1 t q)"
  by (induction q) (auto simp: closures_simps)

lemma closures_in_flight_update:
  "i < length ws \<Longrightarrow>
     closures (concat (map holding (ws[i := y]))) + closures (holding (ws ! i))
       = closures (concat (map holding ws)) + closures (holding y)"
proof (induction ws arbitrary: i)
  case Nil
  then show ?case by simp
next
  case (Cons w ws)
  show ?case
  proof (cases i)
    case 0
    then show ?thesis by (simp add: closures_simps)
  next
    case (Suc k)
    then show ?thesis using Cons.IH [of k] Cons.prems by (simp add: closures_simps ac_simps)
  qed
qed

lemma mset_remove1_subset: "mset (remove1 t q) \<subseteq># mset q"
  by (induction q) (auto intro: subset_mset.order_trans)

text \<open>
  Every closure is in exactly one place: run (in the log), held by a worker, or
  queued. No step of a worker changes the total, and the log only grows at its end.
\<close>

lemma worker_step_stopped_conserves:
  assumes "\<not> running p" and "worker_step i t p = Some p'"
  shows "mset (executed p') + closures (in_flight p') + closures (taskQueue p')
           = mset (executed p) + closures (in_flight p) + closures (taskQueue p)"
    and "\<exists>ran. executed p' = executed p @ ran"
    and "mset (taskQueue p') \<subseteq># mset (taskQueue p)"
proof -
  have upd: "closures (concat (map holding ((workers p)[i := y])))
               + closures (holding (workers p ! i))
             = closures (concat (map holding (workers p))) + closures (holding y)"
    if "i < length (workers p)" for y
    using that by (rule closures_in_flight_update)
  show "mset (executed p') + closures (in_flight p') + closures (taskQueue p')
           = mset (executed p) + closures (in_flight p) + closures (taskQueue p)"
    using assms
  proof (cases rule: worker_step_stopped_cases)
    case leave
    then show ?thesis
      using upd [of Finished] by (simp add: set_worker_def in_flight_def closures_simps)
  next
    case break
    then show ?thesis
      using upd [of Finished] by (simp add: set_worker_def in_flight_def closures_simps)
  next
    case take
    from take(3) have "t \<in> set (taskQueue p)" by (simp add: is_top_def)
    then have "closures (taskQueue p)
        = mset (run_function t) + closures (remove1 t (taskQueue p))"
      by (rule closures_remove1)
    with take show ?thesis
      using upd [of "Executing t"]
      by (simp add: set_worker_def in_flight_def closures_simps ac_simps)
  next
    case (run u)
    then show ?thesis
      using upd [of AtLoopTest]
      by (simp add: set_worker_def in_flight_def closures_simps ac_simps)
  qed
  show "\<exists>ran. executed p' = executed p @ ran"
    using assms by (cases rule: worker_step_stopped_cases) (simp_all add: set_worker_def)
  show "mset (taskQueue p') \<subseteq># mset (taskQueue p)"
    using assms
    by (cases rule: worker_step_stopped_cases)
      (simp_all add: set_worker_def mset_remove1_subset)
qed

lemma run_workers_stopped_conserves:
  assumes "\<not> running p" and "run_workers sched p = Some p'"
  shows "mset (executed p') + closures (in_flight p') + closures (taskQueue p')
           = mset (executed p) + closures (in_flight p) + closures (taskQueue p)
       \<and> (\<exists>ran. executed p' = executed p @ ran)
       \<and> mset (taskQueue p') \<subseteq># mset (taskQueue p)"
  using assms
proof (induction sched arbitrary: p)
  case Nil
  then show ?case by simp
next
  case (Cons a sched)
  obtain i t where a: "a = (i, t)" by (cases a)
  with Cons.prems obtain q
    where q: "worker_step i t p = Some q" "run_workers sched q = Some p'"
    by (auto split: option.splits)
  have nq: "\<not> running q" using Cons.prems(1) q(1) by (rule worker_step_stopped(1))
  note step = worker_step_stopped_conserves [OF Cons.prems(1) q(1)]
  note rest = Cons.IH [OF nq q(2)]
  from step(2) obtain r1 where r1: "executed q = executed p @ r1" by blast
  from rest obtain r2 where r2: "executed p' = executed q @ r2" by blast
  have "executed p' = executed p @ (r1 @ r2)" using r1 r2 by simp
  then have "\<exists>ran. executed p' = executed p @ ran" ..
  moreover have "mset (taskQueue p') \<subseteq># mset (taskQueue p)"
    using rest step(3) by (blast intro: subset_mset.order_trans)
  moreover have "mset (executed p') + closures (in_flight p') + closures (taskQueue p')
           = mset (executed p) + closures (in_flight p) + closures (taskQueue p)"
    using rest step(1) by simp
  ultimately show ?case by blast
qed

lemma all_Finished_in_flight:
  "list_all (\<lambda>x. x = Finished) ws \<Longrightarrow> concat (map holding ws) = []"
  by (induction ws) auto

lemma stop_log:
  assumes "stop sched p = Some p'"
  shows "mset (executed p') + closures (taskQueue p')
           = mset (executed p) + closures (in_flight p) + closures (taskQueue p)"
    and "\<exists>ran. executed p' = executed p @ ran"
    and "mset (taskQueue p') \<subseteq># mset (taskQueue p)"
proof -
  from assms obtain q where run: "run_workers sched (p\<lparr>running := False\<rparr>) = Some q"
    and fin: "list_all (\<lambda>x. x = Finished) (workers q)" and p': "p' = q\<lparr>workers := []\<rparr>"
    by (rule stopE)
  have off: "\<not> running (p\<lparr>running := False\<rparr>)" by simp
  note c = run_workers_stopped_conserves [OF off run]
  have "in_flight q = []"
    unfolding in_flight_def using fin by (rule all_Finished_in_flight)
  then have "closures (in_flight q) = {#}" by (simp add: closures_simps)
  with c show "mset (executed p') + closures (taskQueue p')
           = mset (executed p) + closures (in_flight p) + closures (taskQueue p)"
    using p' by (simp add: in_flight_def)
  from c show "\<exists>ran. executed p' = executed p @ ran" using p' by simp
  from c show "mset (taskQueue p') \<subseteq># mset (taskQueue p)" using p' by simp
qed

text \<open>\<open>stop\<close> returns: whatever the workers are doing, some schedule lets them all return.\<close>

lemma run_workers_append:
  "run_workers (s1 @ s2) p =
     (case run_workers s1 p of None \<Rightarrow> None | Some q \<Rightarrow> run_workers s2 q)"
  by (induction s1 arbitrary: p) (auto split: option.splits)

lemma top_exists: "q \<noteq> [] \<Longrightarrow> \<exists>t. is_top t q"
proof (induction q)
  case Nil
  then show ?case by simp
next
  case (Cons x xs)
  show ?case
  proof (cases "xs = []")
    case True
    then have "is_top x (x # xs)" by (simp add: is_top_def)
    then show ?thesis ..
  next
    case False
    with Cons.IH obtain t where t: "is_top t xs" by blast
    show ?thesis
    proof (cases "priority t \<le> priority x")
      case True
      with t have "is_top x (x # xs)" by (auto simp: is_top_def)
      then show ?thesis ..
    next
      case False
      with t have "is_top t (x # xs)" by (auto simp: is_top_def)
      then show ?thesis ..
    qed
  qed
qed

lemma finish_one:
  assumes "\<not> running p" and "i < length (workers p)"
  shows "\<exists>sched q. run_workers sched p = Some q \<and> \<not> running q
           \<and> workers q = (workers p)[i := Finished]"
proof (cases "workers p ! i")
  case AtLoopTest
  with assms have "run_workers [(i, t)] p = Some (set_worker i Finished p)" for t
    by (simp add: worker_step_def)
  with assms(1) show ?thesis by (fastforce simp: set_worker_def)
next
  case InLoopBody
  show ?thesis
  proof (cases "taskQueue p = []")
    case True
    with InLoopBody assms have "run_workers [(i, t)] p = Some (set_worker i Finished p)" for t
      by (simp add: worker_step_def)
    with assms(1) show ?thesis by (fastforce simp: set_worker_def)
  next
    case False
    then obtain t where t: "is_top t (taskQueue p)" using top_exists by blast
    define q where
      "q = p\<lparr>taskQueue := remove1 t (taskQueue p),
             activeThreads := activeThreads p + 1 - 1,
             executed := executed p @ run_function t,
             workers := (workers p)[i := Finished]\<rparr>"
    have "run_workers [(i, t), (i, t), (i, t)] p = Some q"
      using InLoopBody assms False t by (simp add: worker_step_def set_worker_def q_def)
    moreover have "\<not> running q" "workers q = (workers p)[i := Finished]"
      using assms(1) by (simp_all add: q_def)
    ultimately show ?thesis by blast
  qed
next
  case (Executing u)
  define q where
    "q = p\<lparr>executed := executed p @ run_function u,
           activeThreads := activeThreads p - 1,
           workers := (workers p)[i := Finished]\<rparr>"
  have "run_workers [(i, u), (i, u)] p = Some q"
    using Executing assms by (simp add: worker_step_def set_worker_def q_def)
  moreover have "\<not> running q" "workers q = (workers p)[i := Finished]"
    using assms(1) by (simp_all add: q_def)
  ultimately show ?thesis by blast
next
  case Finished
  then have "workers p = (workers p)[i := Finished]" by (metis list_update_id)
  moreover have "run_workers [] p = Some p" by simp
  ultimately show ?thesis using assms(1) by blast
qed

lemma finish_upto:
  assumes "\<not> running p" and "k \<le> length (workers p)"
  shows "\<exists>sched q. run_workers sched p = Some q \<and> \<not> running q
           \<and> length (workers q) = length (workers p)
           \<and> (\<forall>j<k. workers q ! j = Finished)"
  using assms(2)
proof (induction k)
  case 0
  have "run_workers [] p = Some p" by simp
  with assms(1) show ?case by blast
next
  case (Suc k)
  then obtain s1 q where q: "run_workers s1 p = Some q" "\<not> running q"
    "length (workers q) = length (workers p)" "\<forall>j<k. workers q ! j = Finished"
    by auto
  have "k < length (workers q)" using Suc.prems q(3) by simp
  from finish_one [OF q(2) this] obtain s2 r where
    r: "run_workers s2 q = Some r" "\<not> running r" "workers r = (workers q)[k := Finished]"
    by blast
  have "run_workers (s1 @ s2) p = Some r"
    using q(1) r(1) by (simp add: run_workers_append)
  moreover have "length (workers r) = length (workers p)" using r(3) q(3) by simp
  moreover have "\<forall>j<Suc k. workers r ! j = Finished"
    using r(3) q(4) \<open>k < length (workers q)\<close> by (auto simp: less_Suc_eq nth_list_update)
  ultimately show ?case using r(2) by blast
qed

lemma stop_returns: "\<exists>sched p'. stop sched p = Some p'"
proof -
  have "\<not> running (p\<lparr>running := False\<rparr>)"
    and "length (workers p) \<le> length (workers (p\<lparr>running := False\<rparr>))"
    by simp_all
  from finish_upto [OF this] obtain sched q where
    q: "run_workers sched (p\<lparr>running := False\<rparr>) = Some q"
    "length (workers q) = length (workers p)" "\<forall>j<length (workers p). workers q ! j = Finished"
    by auto
  then have "list_all (\<lambda>x. x = Finished) (workers q)" by (simp add: list_all_length)
  with q(1) have "stop sched p = Some (q\<lparr>workers := []\<rparr>)" by (simp add: stop_def)
  then show ?thesis by blast
qed

lemmas pool_defs =
  ThreadPool_ctor_def start_def submitTask_def worker_step_def set_worker_def stop_def
  is_top_def run_function_def

lemma stop_busy_pool:
  "stop [(0, job5), (0, job5), (1, job7), (1, job7), (1, job7), (2, job7)] busy_pool
     = Some busy_pool_after"
  by (simp add: busy_pool_def busy_pool_after_def job5_def job7_def job8_def pool_defs)

lemma stop_working_pool:
  "stop [(1, job7), (0, job5), (0, job5)] working_pool = Some working_pool_after"
  by (simp add: working_pool_def working_pool_after_def job5_def job7_def job8_def pool_defs)

text \<open>
  C4, as stated, fails. One worker has entered the loop body and waits for work; a
  task is submitted, so the queue holds it when \<open>stop\<close> is requested. \<open>stop\<close> clears
  the flag; the worker's wait is over (\<open>!running\<close>), the queue is not empty, so the
  worker takes the queued task and runs it before it leaves the loop: the log of
  executed closures holds 7 when \<open>stop\<close> returns.
\<close>

theorem stop_runs_a_queued_task:
  "pool_run [Step 0 job7, Submit (Some 7) ''job''] (start (ThreadPool_ctor 1))
     = Some ([True], waiting_pool)
   \<and> running waiting_pool \<and> taskQueue waiting_pool = [job7]
   \<and> stop [(0, job7), (0, job7), (0, job7)] waiting_pool
     = Some \<lparr>workers = [], taskQueue = [], running = False, activeThreads = 0,
             executed = [7]\<rparr>"
  by (simp add: waiting_pool_def job7_def ThreadPool_ctor_def start_def submitTask_def
      worker_step_def set_worker_def stop_def is_top_def run_function_def)

text \<open>
  C4, amended. \<open>stop\<close> on any pool returns, for some interleaving of its workers, and
  whenever it returns: the flag is clear and no worker is left; every task that a
  worker was executing when \<open>stop\<close> was requested has been run to its end; a queued
  task leaves the queue only through a worker that was already inside the loop body
  without a task at that moment (each such worker takes one task if the queue is not
  empty), so either the queue is empty or exactly one task per such worker has been
  taken, and with no such worker the queue is left as it was. The log is pinned: it
  is the log at the request followed by new entries, nothing enters the queue, and
  the log and the closures still queued at the return are together, as multisets,
  the log, the closures in flight and the closures queued at the request. So what has
  run since the request is exactly the tasks in flight and the tasks taken from the
  queue, each once, and no task still queued has run; nor can it run later, no worker
  being left.
\<close>

theorem stop_returns_and_abandons_the_rest:
  "(\<exists>sched p'. stop sched p = Some p')
   \<and> (\<forall>sched p'. stop sched p = Some p' \<longrightarrow>
        \<not> running p' \<and> workers p' = []
        \<and> (\<forall>j u. j < length (workers p) \<and> workers p ! j = Executing u
               \<longrightarrow> set (run_function u) \<subseteq> set (executed p'))
        \<and> length (taskQueue p) \<le> length (taskQueue p') + count_list (workers p) InLoopBody
        \<and> (taskQueue p' = [] \<or>
           length (taskQueue p) = length (taskQueue p') + count_list (workers p) InLoopBody)
        \<and> (count_list (workers p) InLoopBody = 0 \<longrightarrow> taskQueue p' = taskQueue p)
        \<and> (\<forall>i t. worker_step i t p' = None)
        \<and> mset (taskQueue p') \<subseteq># mset (taskQueue p)
        \<and> (\<exists>ran. executed p' = executed p @ ran)
        \<and> mset (executed p') + closures (taskQueue p')
            = mset (executed p) + closures (in_flight p) + closures (taskQueue p))"
  using stop_returns [of p] stop_effects [of _ p] stop_log [of _ p] by blast

theorem stop_returns_and_abandons_the_rest_witness:
  "stop [(0, job5), (0, job5), (1, job7), (1, job7), (1, job7), (2, job7)] busy_pool
     = Some busy_pool_after
   \<and> (0::nat) < length (workers busy_pool) \<and> workers busy_pool ! 0 = Executing job5
   \<and> set (run_function job5) \<subseteq> set (executed busy_pool_after)
   \<and> length (taskQueue busy_pool)
       = length (taskQueue busy_pool_after) + count_list (workers busy_pool) InLoopBody
   \<and> mset (executed busy_pool_after) + closures (taskQueue busy_pool_after)
       = mset (executed busy_pool) + closures (in_flight busy_pool)
         + closures (taskQueue busy_pool)
   \<and> mset (executed busy_pool_after) = {#5, 7#}
   \<and> closures (taskQueue busy_pool_after) = {#8#}
   \<and> stop [(1, job7), (0, job5), (0, job5)] working_pool = Some working_pool_after
   \<and> count_list (workers working_pool) InLoopBody = 0
   \<and> taskQueue working_pool_after = taskQueue working_pool
   \<and> worker_step 0 job7 working_pool_after = None"
proof -
  have a: "(0::nat) < length (workers busy_pool) \<and> workers busy_pool ! 0 = Executing job5"
    by (simp add: busy_pool_def)
  have b: "taskQueue busy_pool_after \<noteq> []" by (simp add: busy_pool_after_def)
  have c: "count_list (workers working_pool) InLoopBody = 0" by (simp add: working_pool_def)
  have d: "mset (executed busy_pool_after) = {#5, 7#}"
    "closures (taskQueue busy_pool_after) = {#8#}"
    by (simp_all add: busy_pool_after_def closures_def job8_def run_function_def)
  show ?thesis
    using a b c d stop_busy_pool stop_working_pool
      stop_returns_and_abandons_the_rest [of busy_pool]
      stop_returns_and_abandons_the_rest [of working_pool]
    by blast
qed

lemma pool_run_no_workers:
  assumes "workers p = []" and "running p" and "pool_run evs p = Some (rs, p2)"
  shows "executed p2 = executed p \<and> workers p2 = [] \<and> running p2 \<and> rs = replicate (length rs) True"
  using assms
proof (induction evs arbitrary: p rs)
  case Nil
  then show ?case by simp
next
  case (Cons e evs)
  show ?case
  proof (cases e)
    case (Submit f d)
    define q where
      "q = p\<lparr>taskQueue := taskQueue p @
                [\<lparr>task_function = f, task_description = d, priority = 0\<rparr>]\<rparr>"
    have s: "submitTask f d p = (True, q)"
      using Cons.prems(2) by (simp add: submitTask_def q_def)
    have q: "workers q = []" "running q" "executed q = executed p"
      using Cons.prems(1,2) by (simp_all add: q_def)
    from Cons.prems(3) Submit s obtain rs' where
      rs: "pool_run evs q = Some (rs', p2)" "rs = True # rs'"
      by (auto split: option.splits)
    from Cons.IH [OF q(1,2) rs(1)] q(3) rs(2) show ?thesis by simp
  next
    case (Step i t)
    with Cons.prems show ?thesis by (simp add: worker_step_def)
  qed
qed

lemma submit_all_no_workers:
  assumes "workers p = []" and "running p"
  shows "\<exists>p2. pool_run (map (\<lambda>(f, d). Submit f d) tasks) p
                = Some (replicate (length tasks) True, p2)
             \<and> taskQueue p2 = taskQueue p @
                 map (\<lambda>(f, d). \<lparr>task_function = f, task_description = d, priority = 0\<rparr>) tasks"
  using assms
proof (induction tasks arbitrary: p)
  case Nil
  then show ?case by simp
next
  case (Cons a tasks)
  obtain f d where a: "a = (f, d)" by (cases a)
  define q where
    "q = p\<lparr>taskQueue := taskQueue p @
              [\<lparr>task_function = f, task_description = d, priority = 0\<rparr>]\<rparr>"
  have s: "submitTask f d p = (True, q)"
    using Cons.prems(2) by (simp add: submitTask_def q_def)
  have q: "workers q = []" "running q"
    "taskQueue q = taskQueue p @ [\<lparr>task_function = f, task_description = d, priority = 0\<rparr>]"
    using Cons.prems by (simp_all add: q_def)
  from Cons.IH [OF q(1,2)] obtain p2 where
    "pool_run (map (\<lambda>(f, d). Submit f d) tasks) q = Some (replicate (length tasks) True, p2)"
    "taskQueue p2 = taskQueue q @
       map (\<lambda>(f, d). \<lparr>task_function = f, task_description = d, priority = 0\<rparr>) tasks"
    by blast
  then show ?case using a s q(3) by simp
qed

lemma stop_idle_pool: "stop [(1, job7), (0, job7)] idle_pool = Some idle_pool_stopped"
  by (simp add: idle_pool_def idle_pool_stopped_def pool_defs numeral_2_eq_2)

text \<open>
  C9. When \<open>stop\<close> has returned, the vector of workers is empty and the flag is clear;
  \<open>start\<close> then only sets the flag, so the pool still has no worker. From there on
  every \<open>submitTask\<close> returns true and appends its task to the queue, no worker step
  is possible, and whatever is submitted the log of executed closures stays as it was
  when \<open>stop\<close> returned.
\<close>

theorem restarted_pool_runs_nothing:
  assumes "stop sched p = Some p1"
  shows "workers p1 = [] \<and> \<not> running p1 \<and> start p1 = p1\<lparr>running := True\<rparr>
       \<and> workers (start p1) = [] \<and> running (start p1)
       \<and> (\<forall>f d. fst (submitTask f d (start p1)) = True)
       \<and> (\<forall>evs rs p2. pool_run evs (start p1) = Some (rs, p2) \<longrightarrow>
             executed p2 = executed p1 \<and> workers p2 = [] \<and> rs = replicate (length rs) True
             \<and> (\<forall>i t. worker_step i t p2 = None))
       \<and> (\<forall>tasks. \<exists>p2.
             pool_run (map (\<lambda>(f, d). Submit f d) tasks) (start p1)
               = Some (replicate (length tasks) True, p2)
             \<and> taskQueue p2 = taskQueue p1 @
                 map (\<lambda>(f, d). \<lparr>task_function = f, task_description = d, priority = 0\<rparr>) tasks
             \<and> executed p2 = executed p1)"
proof -
  from assms obtain q where run: "run_workers sched (p\<lparr>running := False\<rparr>) = Some q"
    and p1: "p1 = q\<lparr>workers := []\<rparr>" by (rule stopE)
  have w: "workers p1 = []" using p1 by simp
  have "\<not> running (p\<lparr>running := False\<rparr>)" by simp
  then have "\<not> running q" using run by (rule run_workers_stopped(1))
  then have off: "\<not> running p1" using p1 by simp
  then have st: "start p1 = p1\<lparr>running := True\<rparr>" by (simp add: start_def)
  have sw: "workers (start p1) = []" and sr: "running (start p1)"
    and se: "executed (start p1) = executed p1" and sq: "taskQueue (start p1) = taskQueue p1"
    using w by (simp_all add: start_def)
  have a: "fst (submitTask f d (start p1)) = True" for f d
    using sr by (simp add: submitTask_def)
  have b: "executed p2 = executed p1 \<and> workers p2 = [] \<and> rs = replicate (length rs) True
             \<and> (\<forall>i t. worker_step i t p2 = None)"
    if "pool_run evs (start p1) = Some (rs, p2)" for evs rs p2
    using pool_run_no_workers [OF sw sr that] se by (simp add: worker_step_def)
  have c: "\<exists>p2. pool_run (map (\<lambda>(f, d). Submit f d) tasks) (start p1)
               = Some (replicate (length tasks) True, p2)
             \<and> taskQueue p2 = taskQueue p1 @
                 map (\<lambda>(f, d). \<lparr>task_function = f, task_description = d, priority = 0\<rparr>) tasks
             \<and> executed p2 = executed p1" for tasks
  proof -
    from submit_all_no_workers [OF sw sr, of tasks] obtain p2 where
      p2: "pool_run (map (\<lambda>(f, d). Submit f d) tasks) (start p1)
               = Some (replicate (length tasks) True, p2)"
       "taskQueue p2 = taskQueue (start p1) @
                 map (\<lambda>(f, d). \<lparr>task_function = f, task_description = d, priority = 0\<rparr>) tasks"
      by blast
    from b [OF p2(1)] p2 sq show ?thesis by auto
  qed
  from w off st sw sr a b c show ?thesis by blast
qed

theorem restarted_pool_runs_nothing_witness:
  "stop [(1, job7), (0, job7)] idle_pool = Some idle_pool_stopped
   \<and> workers (start idle_pool_stopped) = [] \<and> running (start idle_pool_stopped)
   \<and> fst (submitTask (Some 7) ''job'' (start idle_pool_stopped)) = True
   \<and> pool_run [Submit (Some 7) ''job'', Submit (Some 8) ''job''] (start idle_pool_stopped)
       = Some ([True, True],
               \<lparr>workers = [], taskQueue = [job7, job8], running = True, activeThreads = 0,
                executed = []\<rparr>)
   \<and> worker_step 0 job7
        \<lparr>workers = [], taskQueue = [job7, job8], running = True, activeThreads = 0,
         executed = []\<rparr> = None"
proof -
  have r: "pool_run [Submit (Some 7) ''job'', Submit (Some 8) ''job''] (start idle_pool_stopped)
       = Some ([True, True],
               \<lparr>workers = [], taskQueue = [job7, job8], running = True, activeThreads = 0,
                executed = []\<rparr>)"
    by (simp add: idle_pool_stopped_def job7_def job8_def pool_defs)
  from restarted_pool_runs_nothing [OF stop_idle_pool] r stop_idle_pool
  show ?thesis by blast
qed

end
